theory Spec2Isabelle
  imports Main "HOL-Library.AList"
begin

section \<open>Data model\<close>

text \<open>
  The loader of \<^verbatim>\<open>loaderPlugin.py\<close> handles decoded JSON. A value is a leaf or a
  mapping; a Python \<^verbatim>\<open>dict\<close> keeps insertion order, so a mapping is an association
  list (in a well-formed one the keys are distinct). The leaves the generator inspects
  are strings and numbers.
\<close>

datatype scalar = Str string | Num int

datatype 'a json = Leaf 'a | Dict "(string \<times> 'a json) list"

type_synonym 'a nested = "(string \<times> 'a json) list"

type_synonym 'a flat = "(string \<times> 'a) list"

type_synonym doc = "scalar nested"

type_synonym row = "scalar flat"

text \<open>
  The exceptions the modelled code can raise. Python has one \<^verbatim>\<open>IndexError\<close>; the
  two places that raise it are kept apart: \<^verbatim>\<open>docs[-1]\<close> on an empty list and
  \<^verbatim>\<open>q.pop()\<close> on an empty deque.
\<close>

datatype error = KeyError string | TypeError | IndexError_list | IndexError_deque

text \<open>
  The decoded body of one reply of the search endpoint, with the four places the
  generator reads: \<^verbatim>\<open>fault\<close>, \<^verbatim>\<open>status\<close>, \<^verbatim>\<open>response.meta.hits\<close> and
  \<^verbatim>\<open>response.docs\<close>.
\<close>

record response =
  fault :: "string option"
  status :: string
  hits :: int
  docs :: "doc list"

text \<open>The local variables of \<^verbatim>\<open>getDataBatch\<close>.\<close>

record state =
  current_date_lower_bound :: string
  page_num :: int
  article_id_set :: "scalar set"
  q :: "row list"

text \<open>
  What a run does that its caller or the provider can observe: a request (determined by
  the date lower bound and the page number, the other parameters being fixed), a
  \<^verbatim>\<open>time.sleep\<close>, and a yielded batch.
\<close>

datatype event = Get string int | Sleep nat | Yield "row list"

datatype outcome = Running state | Finished | Aborted error

section \<open>The helpers\<close>

text \<open>
  \<^verbatim>\<open>dict(items)\<close>: a later pair with a key already present overwrites the value
  and keeps the key's position.
\<close>

definition dict :: "('k \<times> 'v) list \<Rightarrow> ('k \<times> 'v) list" where
  "dict items = fold (\<lambda>(k, v). AList.update k v) items []"

text \<open>\<^verbatim>\<open>new_key = parent_key + '.' + k if parent_key else k\<close>\<close>

definition new_key :: "string \<Rightarrow> string \<Rightarrow> string" where
  "new_key parent_key k = (if parent_key \<noteq> [] then parent_key @ ''.'' @ k else k)"

text \<open>
  \<^verbatim>\<open>flatten\<close>: \<open>flatten_items\<close> is the list \<^verbatim>\<open>items\<close> that the loop over
  \<^verbatim>\<open>d.items()\<close> builds, \<open>flatten\<close> the returned \<^verbatim>\<open>dict(items)\<close>.
\<close>

fun flatten_items :: "'a nested \<Rightarrow> string \<Rightarrow> (string \<times> 'a) list" where
  "flatten_items [] parent_key = []"
| "flatten_items ((k, Dict v) # d) parent_key =
     dict (flatten_items v (new_key parent_key k)) @ flatten_items d parent_key"
| "flatten_items ((k, Leaf v) # d) parent_key =
     (new_key parent_key k, v) # flatten_items d parent_key"

definition flatten :: "'a nested \<Rightarrow> string \<Rightarrow> 'a flat" where
  "flatten d parent_key = dict (flatten_items d parent_key)"

text \<open>
  \<^verbatim>\<open>getn\<close>: \<^verbatim>\<open>q.append\<close> adds at the right end of the deque, the end of the list
  here, and \<^verbatim>\<open>q.pop()\<close> removes from that same right end. The function returns the
  popped items and the deque that is left.
\<close>

function getn_loop :: "'a list \<Rightarrow> int \<Rightarrow> 'a list \<Rightarrow> error + ('a list \<times> 'a list)" where
  "getn_loop dq n result =
     (if int (length result) < n
      then (if dq = [] then Inl IndexError_deque
            else getn_loop (butlast dq) n (result @ [last dq]))
      else Inr (result, dq))"
  by pat_completeness auto
termination
  by (relation "measure (\<lambda>(dq, n, result). length dq)") auto

declare getn_loop.simps [simp del]

definition getn :: "'a list \<Rightarrow> int \<Rightarrow> error + ('a list \<times> 'a list)" where
  "getn dq n = (if dq = [] then Inl IndexError_deque
                else getn_loop (butlast dq) n [last dq])"

section \<open>The generator\<close>

text \<open>
  The loop over \<^verbatim>\<open>response_json['response']['docs']\<close>. A document without
  \<^verbatim>\<open>_id\<close> raises \<^verbatim>\<open>KeyError\<close>, one whose \<^verbatim>\<open>_id\<close> is a mapping is unhashable.
\<close>

fun dedup :: "doc list \<Rightarrow> scalar set \<Rightarrow> row list \<Rightarrow> error + (scalar set \<times> row list)" where
  "dedup [] ids dq = Inr (ids, dq)"
| "dedup (doc # ds) ids dq =
     (case map_of doc ''_id'' of
        None \<Rightarrow> Inl (KeyError ''_id'')
      | Some (Dict m) \<Rightarrow> Inl TypeError
      | Some (Leaf i) \<Rightarrow>
          if i \<notin> ids then dedup ds (insert i ids) (dq @ [flatten doc []])
          else dedup ds ids dq)"

text \<open>
  Lines 99 to 102: the page number has been incremented already; at 100 the lower bound
  becomes \<^verbatim>\<open>docs[-1]['pub_date'][:10]\<close> and the page number 0.
\<close>

definition advance :: "doc list \<Rightarrow> int \<Rightarrow> string \<Rightarrow> error + (string \<times> int)" where
  "advance ds page bound =
     (if page \<ge> 100 then
        (if ds = [] then Inl IndexError_list
         else case map_of (last ds) ''pub_date'' of
                None \<Rightarrow> Inl (KeyError ''pub_date'')
              | Some (Leaf (Str d)) \<Rightarrow> Inr (take 10 d, 0)
              | Some other \<Rightarrow> Inl TypeError)
      else Inr (bound, page))"

text \<open>
  One pass through the body of \<^verbatim>\<open>while True\<close>, given the reply to its request.
  The \<^verbatim>\<open>print\<close> calls are left out.
\<close>

definition iteration :: "int \<Rightarrow> response \<Rightarrow> state \<Rightarrow> event list \<times> outcome" where
  "iteration batch_size r s =
     (let req = Get (current_date_lower_bound s) (page_num s) in
      if fault r \<noteq> None then ([req, Sleep 12], Running s)
      else if status r = ''ERROR'' then ([req], Finished)
      else if hits r = 0 then ([req], Finished)
      else case dedup (docs r) (article_id_set s) (q s) of
             Inl e \<Rightarrow> ([req], Aborted e)
           | Inr (ids, dq) \<Rightarrow>
               (case advance (docs r) (page_num s + 1) (current_date_lower_bound s) of
                  Inl e \<Rightarrow> ([req], Aborted e)
                | Inr (bound, page) \<Rightarrow>
                    if int (length dq) \<ge> batch_size then
                      (case getn dq batch_size of
                         Inl e \<Rightarrow> ([req], Aborted e)
                       | Inr (batch, dq') \<Rightarrow>
                           ([req, Yield batch, Sleep 12],
                            Running \<lparr>current_date_lower_bound = bound, page_num = page,
                                     article_id_set = ids, q = dq'\<rparr>))
                    else
                      ([req, Sleep 12],
                       Running \<lparr>current_date_lower_bound = bound, page_num = page,
                                article_id_set = ids, q = dq\<rparr>)))"

text \<open>
  The loop, run against the replies the provider gives in order. When the replies are
  used up the generator is still running, waiting for the next one.
\<close>

fun run :: "int \<Rightarrow> response list \<Rightarrow> state \<Rightarrow> event list \<times> outcome" where
  "run batch_size [] s = ([], Running s)"
| "run batch_size (r # rs) s =
     (case iteration batch_size r s of
        (evs, Running s') \<Rightarrow>
          (case run batch_size rs s' of (evs', out) \<Rightarrow> (evs @ evs', out))
      | (evs, out) \<Rightarrow> (evs, out))"

definition initial :: state where
  "initial = \<lparr>current_date_lower_bound = ''0000-01-01'', page_num = 0,
              article_id_set = {}, q = []\<rparr>"

definition getDataBatch :: "int \<Rightarrow> response list \<Rightarrow> event list \<times> outcome" where
  "getDataBatch batch_size rs = run batch_size rs initial"

text \<open>The batches a run yields, in order.\<close>

fun batches :: "event list \<Rightarrow> row list list" where
  "batches [] = []"
| "batches (Yield b # evs) = b # batches evs"
| "batches (e # evs) = batches evs"

section \<open>Sample data\<close>

text \<open>A document with an id and a publication date, and the replies used as examples.\<close>

definition article :: "string \<Rightarrow> string \<Rightarrow> doc" where
  "article i d = [(''_id'', Leaf (Str i)), (''pub_date'', Leaf (Str d))]"

definition reply :: "doc list \<Rightarrow> response" where
  "reply ds = \<lparr>fault = None, status = ''OK'', hits = int (length ds), docs = ds\<rparr>"

definition quota_fault :: response where
  "quota_fault = \<lparr>fault = Some ''quota'', status = [], hits = 0, docs = []\<rparr>"

definition empty_page :: response where
  "empty_page = \<lparr>fault = None, status = ''OK'', hits = 1, docs = []\<rparr>"

section \<open>Notions of the specification\<close>


text \<open>The first ten characters of a document's publication date, when it is a string.\<close>

definition date_prefix :: "doc \<Rightarrow> string option" where
  "date_prefix d = (case map_of d ''pub_date'' of Some (Leaf (Str t)) \<Rightarrow> Some (take 10 t) | _ \<Rightarrow> None)"

text \<open>
  The id of an emitted row, read as the caller reads it (\<^verbatim>\<open>item['_id']\<close>), and the
  documents whose flattened form still carries their id under that key.
\<close>

definition row_id :: "row \<Rightarrow> scalar option" where
  "row_id r = map_of r ''_id''"

definition keeps_id :: "doc \<Rightarrow> bool" where
  "keeps_id d = (case map_of d ''_id'' of
                   Some (Leaf i) \<Rightarrow> row_id (flatten d []) = Some i
                 | _ \<Rightarrow> True)"


text \<open>
  The notions of the round-trip property, which the code does not contain and which
  follow the words of the specification. The leaves of a nested mapping, each with the
  path of keys from the root; the path joined with dots; a key split at the dots, as
  \<^verbatim>\<open>key.split('.')\<close> does; and the re-nesting that inserts every flattened entry at
  its split key, creating the mappings on the way when they are not there yet
  (\<^verbatim>\<open>setdefault\<close>), in the order of the entries.
\<close>

fun leaf_paths :: "'a nested \<Rightarrow> (string list \<times> 'a) list" where
  "leaf_paths [] = []"
| "leaf_paths ((k, Leaf x) # d) = ([k], x) # leaf_paths d"
| "leaf_paths ((k, Dict v) # d) = map (\<lambda>(p, x). (k # p, x)) (leaf_paths v) @ leaf_paths d"

fun dot_join :: "string list \<Rightarrow> string" where
  "dot_join [] = []"
| "dot_join [k] = k"
| "dot_join (k # p) = k @ ''.'' @ dot_join p"

fun split_dot :: "string \<Rightarrow> string list" where
  "split_dot [] = [[]]"
| "split_dot (c # cs) =
     (if c = CHR ''.'' then [] # split_dot cs
      else case split_dot cs of [] \<Rightarrow> [[c]] | w # ws \<Rightarrow> (c # w) # ws)"

fun insert_path :: "string list \<Rightarrow> 'a \<Rightarrow> 'a nested \<Rightarrow> 'a nested" where
  "insert_path [] x t = t"
| "insert_path [k] x t = AList.update k (Leaf x) t"
| "insert_path (k # p) x t =
     (case map_of t k of
        Some (Dict sub) \<Rightarrow> AList.update k (Dict (insert_path p x sub)) t
      | _ \<Rightarrow> AList.update k (Dict (insert_path p x [])) t)"

definition renest :: "'a flat \<Rightarrow> 'a nested" where
  "renest f = fold (\<lambda>(key, x). insert_path (split_dot key) x) f []"

text \<open>
  The mappings the property is about. A \<^verbatim>\<open>dict\<close> has no key twice, at any depth
  (\<open>wf_mapping\<close>). No value is the empty mapping (\<open>no_empty_branch\<close>). No two leaves
  have the same dotted path (\<open>collision_free\<close>). For the amended statement: no key
  contains a dot (\<open>dot_free_keys\<close>), and at the top level the empty string is not the
  key of a mapping (\<open>root_named\<close>).
\<close>

fun wf_mapping :: "'a nested \<Rightarrow> bool" where
  "wf_mapping [] = True"
| "wf_mapping ((k, Leaf x) # d) = (k \<notin> fst ` set d \<and> wf_mapping d)"
| "wf_mapping ((k, Dict v) # d) = (k \<notin> fst ` set d \<and> wf_mapping v \<and> wf_mapping d)"

fun no_empty_branch :: "'a nested \<Rightarrow> bool" where
  "no_empty_branch [] = True"
| "no_empty_branch ((k, Leaf x) # d) = no_empty_branch d"
| "no_empty_branch ((k, Dict v) # d) = (v \<noteq> [] \<and> no_empty_branch v \<and> no_empty_branch d)"

fun dot_free_keys :: "'a nested \<Rightarrow> bool" where
  "dot_free_keys [] = True"
| "dot_free_keys ((k, Leaf x) # d) = (CHR ''.'' \<notin> set k \<and> dot_free_keys d)"
| "dot_free_keys ((k, Dict v) # d) = (CHR ''.'' \<notin> set k \<and> dot_free_keys v \<and> dot_free_keys d)"

fun root_named :: "'a nested \<Rightarrow> bool" where
  "root_named [] = True"
| "root_named ((k, Leaf x) # d) = root_named d"
| "root_named ((k, Dict v) # d) = (k \<noteq> [] \<and> root_named d)"

definition collision_free :: "'a nested \<Rightarrow> bool" where
  "collision_free d = distinct (map (\<lambda>(p, x). dot_join p) (leaf_paths d))"

text \<open>The entries inserted one after the other, by their paths.\<close>

definition build :: "(string list \<times> 'a) list \<Rightarrow> 'a nested \<Rightarrow> 'a nested" where
  "build ps t = fold (\<lambda>(p, x). insert_path p x) ps t"

text \<open>A document with nested mappings and with empty keys where they do no harm.\<close>

definition sample_doc :: doc where
  "sample_doc =
     [(''_id'', Leaf (Str ''a'')),
      (''headline'', Dict [(''main'', Leaf (Str ''t'')), (''kicker'', Leaf (Str ''k''))]),
      ([], Leaf (Num 0)),
      (''byline'', Dict [(''person'', Dict [([], Leaf (Num 1)), (''rank'', Leaf (Num 2))])])]"

section \<open>Basic facts\<close>

lemmas eval_defs = getDataBatch_def initial_def reply_def article_def iteration_def
  flatten_def dict_def new_key_def getn_def getn_loop.simps advance_def

lemma run_append:
  "run bs (xs @ ys) s =
     (case run bs xs s of
        (evs, Running s') \<Rightarrow> (evs @ fst (run bs ys s'), snd (run bs ys s'))
      | (evs, out) \<Rightarrow> (evs, out))"
  by (induction xs arbitrary: s) (auto split: prod.splits outcome.splits)

lemma batches_append: "batches (xs @ ys) = batches xs @ batches ys"
  by (induction xs rule: batches.induct) auto

lemma iteration_terminal:
  "fault r = None \<Longrightarrow> status r = ''ERROR'' \<or> hits r = 0 \<Longrightarrow>
   iteration bs r s = ([Get (current_date_lower_bound s) (page_num s)], Finished)"
  by (auto simp: iteration_def Let_def)

lemma iteration_fault:
  "fault r \<noteq> None \<Longrightarrow>
   iteration bs r s = ([Get (current_date_lower_bound s) (page_num s), Sleep 12], Running s)"
  by (auto simp: iteration_def)




subsection \<open>What \<open>getn\<close> returns\<close>

lemma getn_loop_eq:
  "n - int (length result) \<le> int (length dq) \<Longrightarrow>
   getn_loop dq n result =
     Inr (result @ take (nat (n - int (length result))) (rev dq),
          take (length dq - nat (n - int (length result))) dq)"
proof (induction dq n result rule: getn_loop.induct)
  case (1 dq n result)
  show ?case
  proof (cases "int (length result) < n")
    case False
    then show ?thesis by (subst getn_loop.simps) simp
  next
    case True
    with "1.prems" have ne: "dq \<noteq> []" by auto
    then obtain xs x where dq: "dq = xs @ [x]" by (metis rev_exhaust)
    define m where "m = nat (n - int (length (result @ [x])))"
    have k: "nat (n - int (length result)) = Suc m"
      using True by (simp add: m_def)
    have le: "m \<le> length xs"
      using "1.prems" dq by (simp add: m_def)
    have "getn_loop dq n result = getn_loop xs n (result @ [x])"
      using True dq by (subst getn_loop.simps) simp
    also have "\<dots> = Inr ((result @ [x]) @ take m (rev xs), take (length xs - m) xs)"
      unfolding m_def using "1.IH"[OF True ne] "1.prems" True dq by simp
    finally show ?thesis
      unfolding k using dq le by simp
  qed
qed

lemma getn_eq:
  assumes "1 \<le> n" and "n \<le> int (length dq)"
  shows "getn dq n = Inr (take (nat n) (rev dq), take (length dq - nat n) dq)"
proof -
  from assms have ne: "dq \<noteq> []" by auto
  then obtain xs x where dq: "dq = xs @ [x]" by (metis rev_exhaust)
  have k: "nat n = Suc (nat (n - 1))" using assms by simp
  have "getn dq n = getn_loop xs n [x]" using dq by (simp add: getn_def)
  also have "\<dots> = Inr ([x] @ take (nat (n - int (length [x]))) (rev xs),
          take (length xs - nat (n - int (length [x]))) xs)"
    using assms dq by (intro getn_loop_eq) simp
  finally show ?thesis using dq assms by (simp add: k)
qed


lemma getn_loop_error: "getn_loop dq n result = Inl e \<Longrightarrow> e = IndexError_deque"
  by (induction dq n result rule: getn_loop.induct)
     (subst (asm) getn_loop.simps, auto split: if_splits)

lemma getn_error: "getn dq n = Inl e \<Longrightarrow> e = IndexError_deque"
  by (auto simp: getn_def split: if_splits dest: getn_loop_error)

subsection \<open>The errors of one pass\<close>

lemma dedup_error: "dedup ds ids dq = Inl e \<Longrightarrow> e = KeyError ''_id'' \<or> e = TypeError"
  by (induction ds arbitrary: ids dq) (auto split: option.splits json.splits if_splits)

lemma advance_error:
  "advance ds page bound = Inl IndexError_list \<longleftrightarrow> 100 \<le> page \<and> ds = []"
  by (auto simp: advance_def split: option.splits json.splits scalar.splits)

lemma iteration_batches_length:
  assumes "1 \<le> bs"
  shows "\<forall>b \<in> set (batches (fst (iteration bs r s))). int (length b) = bs"
  using assms
  by (auto simp: iteration_def Let_def getn_eq split: sum.splits prod.splits)

lemma iteration_at_most_one: "length (batches (fst (iteration bs r s))) \<le> 1"
  by (simp add: iteration_def Let_def split: sum.split prod.split)

section \<open>Order of emission\<close>

text \<open>
  C1 (the code departs from the claim). The claim: records leave the buffer oldest first,
  each batch being taken from the front. The comment above \<^verbatim>\<open>getn\<close> says the same
  ("Pop n items from the front of the queue"), but \<^verbatim>\<open>q.pop()\<close> takes from the
  right end, where \<^verbatim>\<open>q.append\<close> has just put the newest record. With batch size 2
  and one reply carrying a, b, c in this order, the only batch is c, b: the two newest
  records, newest first, while a stays in the buffer.
\<close>

theorem getn_pops_newest_first:
  "batches (fst (getDataBatch 2 [reply [article ''a'' ''2021-08-01'', article ''b'' ''2021-08-02'',
                                       article ''c'' ''2021-08-03'']]))
   = [[flatten (article ''c'' ''2021-08-03'') [], flatten (article ''b'' ''2021-08-02'') []]]"
  by (simp add: eval_defs)

section \<open>Batches per fetch\<close>

text \<open>
  C3, counterexample. The claim: after a fetch, emission repeats until the buffer holds
  fewer than \<open>batch_size\<close> records. The code tests \<^verbatim>\<open>if len(q) >= batch_size\<close>
  once per pass. With batch size 1 and one reply carrying three new documents, the pass
  yields one batch and goes on to the cooldown with two records still buffered.
\<close>

theorem one_batch_per_fetch_counterexample:
  "getDataBatch 1 [reply [article ''a'' ''2021-08-01'', article ''b'' ''2021-08-02'',
                         article ''c'' ''2021-08-03'']]
   = ([Get ''0000-01-01'' 0, Yield [flatten (article ''c'' ''2021-08-03'') []], Sleep 12],
      Running \<lparr>current_date_lower_bound = ''0000-01-01'', page_num = 1,
               article_id_set = {Str ''a'', Str ''b'', Str ''c''},
               q = [flatten (article ''a'' ''2021-08-01'') [],
                    flatten (article ''b'' ''2021-08-02'') []]\<rparr>)"
  by (simp add: eval_defs insert_commute)

text \<open>
  C3, as amended. Every pass through the loop yields at most one batch. When the reply
  carries documents and the buffer, after the new documents are appended, holds at
  least \<open>batch_size \<ge> 1\<close> records, the pass yields exactly one batch: the
  \<open>batch_size\<close> records at the right end of the buffer, taken from the right. It
  then sleeps and fetches again, whatever the buffer still holds.
\<close>

theorem one_batch_per_fetch:
  "length (batches (fst (iteration bs r s))) \<le> 1 \<and>
   (fault r = None \<and> status r \<noteq> ''ERROR'' \<and> hits r \<noteq> 0 \<and>
    dedup (docs r) (article_id_set s) (q s) = Inr (ids, dq) \<and>
    advance (docs r) (page_num s + 1) (current_date_lower_bound s) = Inr (bound, page) \<and>
    1 \<le> bs \<and> bs \<le> int (length dq) \<longrightarrow>
    iteration bs r s =
      ([Get (current_date_lower_bound s) (page_num s), Yield (take (nat bs) (rev dq)), Sleep 12],
       Running \<lparr>current_date_lower_bound = bound, page_num = page, article_id_set = ids,
                q = take (length dq - nat bs) dq\<rparr>))"
proof (intro conjI impI)
  show "length (batches (fst (iteration bs r s))) \<le> 1"
    by (rule iteration_at_most_one)
qed (simp add: iteration_def Let_def getn_eq)

text \<open>C3, witness: batch size 1, a reply with two new documents, from the initial state.\<close>

theorem one_batch_per_fetch_witness:
  "fault (reply [article ''a'' ''2021-08-01'', article ''b'' ''2021-08-02'']) = None \<and>
   status (reply [article ''a'' ''2021-08-01'', article ''b'' ''2021-08-02'']) \<noteq> ''ERROR'' \<and>
   hits (reply [article ''a'' ''2021-08-01'', article ''b'' ''2021-08-02'']) \<noteq> 0 \<and>
   dedup (docs (reply [article ''a'' ''2021-08-01'', article ''b'' ''2021-08-02'']))
     (article_id_set initial) (q initial)
     = Inr ({Str ''a'', Str ''b''},
            [flatten (article ''a'' ''2021-08-01'') [], flatten (article ''b'' ''2021-08-02'') []]) \<and>
   advance (docs (reply [article ''a'' ''2021-08-01'', article ''b'' ''2021-08-02'']))
     (page_num initial + 1) (current_date_lower_bound initial) = Inr (''0000-01-01'', 1) \<and>
   (1::int) \<le> 1 \<and>
   (1::int) \<le> int (length [flatten (article ''a'' ''2021-08-01'') [],
                            flatten (article ''b'' ''2021-08-02'') []]) \<and>
   iteration 1 (reply [article ''a'' ''2021-08-01'', article ''b'' ''2021-08-02'']) initial =
     ([Get ''0000-01-01'' 0, Yield [flatten (article ''b'' ''2021-08-02'') []], Sleep 12],
      Running \<lparr>current_date_lower_bound = ''0000-01-01'', page_num = 1,
               article_id_set = {Str ''a'', Str ''b''},
               q = [flatten (article ''a'' ''2021-08-01'') []]\<rparr>)"
proof -
  have h: "dedup (docs (reply [article ''a'' ''2021-08-01'', article ''b'' ''2021-08-02'']))
     (article_id_set initial) (q initial)
     = Inr ({Str ''a'', Str ''b''},
            [flatten (article ''a'' ''2021-08-01'') [], flatten (article ''b'' ''2021-08-02'') []])"
    by (simp add: reply_def article_def initial_def insert_commute)
  have a: "advance (docs (reply [article ''a'' ''2021-08-01'', article ''b'' ''2021-08-02'']))
     (page_num initial + 1) (current_date_lower_bound initial) = Inr (''0000-01-01'', 1)"
    by (simp add: advance_def initial_def)
  have c: "iteration 1 (reply [article ''a'' ''2021-08-01'', article ''b'' ''2021-08-02'']) initial =
      ([Get (current_date_lower_bound initial) (page_num initial),
        Yield (take (nat 1) (rev [flatten (article ''a'' ''2021-08-01'') [],
                                  flatten (article ''b'' ''2021-08-02'') []])), Sleep 12],
       Running \<lparr>current_date_lower_bound = ''0000-01-01'', page_num = 1,
                article_id_set = {Str ''a'', Str ''b''},
                q = take (length [flatten (article ''a'' ''2021-08-01'') [],
                                  flatten (article ''b'' ''2021-08-02'') []] - nat 1)
                      [flatten (article ''a'' ''2021-08-01'') [],
                       flatten (article ''b'' ''2021-08-02'') []]\<rparr>)"
    using one_batch_per_fetch[of 1 "reply [article ''a'' ''2021-08-01'', article ''b'' ''2021-08-02'']"
        initial "{Str ''a'', Str ''b''}"
        "[flatten (article ''a'' ''2021-08-01'') [], flatten (article ''b'' ''2021-08-02'') []]"
        "''0000-01-01''" 1] h a
    by (simp add: reply_def)
  have i: "current_date_lower_bound initial = ''0000-01-01''" "page_num initial = 0"
    by (simp_all add: initial_def)
  show ?thesis
    using h a c i by (simp add: reply_def)
qed

section \<open>Batch length\<close>

text \<open>
  C4, counterexample. The claim: every batch but possibly the last has exactly
  \<open>batch_size\<close> records, for every requested batch size. \<^verbatim>\<open>getn\<close> pops one record
  before it compares the length of its result with \<open>n\<close>, so with batch size 0 every
  batch has one record: here two batches, each of length 1.
\<close>

theorem batch_length_counterexample:
  "map length (batches (fst (getDataBatch 0 [reply [article ''a'' ''2021-08-01'', article ''b'' ''2021-08-02''],
                                            reply [article ''c'' ''2021-08-03'']]))) = [1, 1]"
  by (simp add: eval_defs)

text \<open>
  C4, as amended. For a batch size of at least 1, every batch a run yields has exactly
  \<open>batch_size\<close> records, the last one too.
\<close>

theorem batch_length:
  assumes "1 \<le> bs"
  shows "\<forall>b \<in> set (batches (fst (run bs rs s))). int (length b) = bs"
proof (induction rs arbitrary: s)
  case Nil
  show ?case by simp
next
  case (Cons r rs)
  obtain evs out where it: "iteration bs r s = (evs, out)" by (cases "iteration bs r s")
  have evs: "\<forall>b \<in> set (batches evs). int (length b) = bs"
    using iteration_batches_length[OF assms, of r s] it by simp
  show ?case
  proof (cases out)
    case (Running s')
    obtain evs' out' where r: "run bs rs s' = (evs', out')" by (cases "run bs rs s'")
    show ?thesis
      using evs Cons.IH[of s'] it Running r by (auto simp: batches_append)
  qed (use evs it in auto)
qed

text \<open>C4, witness: batch size 2, one reply with three new documents; a batch is yielded.\<close>

theorem batch_length_witness:
  "(1::int) \<le> 2 \<and>
   batches (fst (run 2 [reply [article ''a'' ''2021-08-01'', article ''b'' ''2021-08-02'',
                               article ''c'' ''2021-08-03'']] initial))
     = [[flatten (article ''c'' ''2021-08-03'') [], flatten (article ''b'' ''2021-08-02'') []]] \<and>
   int (length [flatten (article ''c'' ''2021-08-03'') [],
                flatten (article ''b'' ''2021-08-02'') []]) = 2"
proof -
  have e: "batches (fst (run 2 [reply [article ''a'' ''2021-08-01'', article ''b'' ''2021-08-02'',
                               article ''c'' ''2021-08-03'']] initial))
     = [[flatten (article ''c'' ''2021-08-03'') [], flatten (article ''b'' ''2021-08-02'') []]]"
    by (simp add: eval_defs)
  have "\<forall>b \<in> set (batches (fst (run 2 [reply [article ''a'' ''2021-08-01'',
            article ''b'' ''2021-08-02'', article ''c'' ''2021-08-03'']] initial))).
          int (length b) = 2"
    by (rule batch_length) simp
  then have "int (length [flatten (article ''c'' ''2021-08-03'') [],
                flatten (article ''b'' ''2021-08-02'') []]) = 2"
    unfolding e by (simp del: length_Cons list.size)
  with e show ?thesis by simp
qed

section \<open>Faults\<close>

text \<open>
  C6. A pass whose reply carries a fault issues its request, sleeps 12 and leaves the
  state (lower bound, page number, seen ids, buffer) as it was; the standard cooldown
  at the end of the loop body is not reached. Hence a run whose first replies are all
  faults repeats the same request once per fault and then does exactly what the run
  on the remaining replies does. Wherever the faults come in the sequence of replies,
  the batches and the outcome are those of the run without them: nothing is yielded
  twice and nothing is lost.
\<close>

theorem fault_retry:
  assumes "\<forall>f \<in> set fs. fault f \<noteq> None"
  shows "(\<forall>f \<in> set fs. iteration bs f s =
            ([Get (current_date_lower_bound s) (page_num s), Sleep 12], Running s)) \<and>
         run bs (fs @ rs) s =
           (concat (replicate (length fs) [Get (current_date_lower_bound s) (page_num s), Sleep 12])
              @ fst (run bs rs s), snd (run bs rs s)) \<and>
         batches (fst (run bs (pre @ fs @ rs) s)) = batches (fst (run bs (pre @ rs) s)) \<and>
         snd (run bs (pre @ fs @ rs) s) = snd (run bs (pre @ rs) s)"
proof -
  have it: "\<forall>f \<in> set fs. iteration bs f t =
            ([Get (current_date_lower_bound t) (page_num t), Sleep 12], Running t)" for t
    using assms by (simp add: iteration_fault)
  have lead: "run bs (fs @ rs) t =
           (concat (replicate (length fs) [Get (current_date_lower_bound t) (page_num t), Sleep 12])
              @ fst (run bs rs t), snd (run bs rs t))" for t
    using assms by (induction fs) (auto simp: iteration_fault split: prod.splits outcome.splits)
  have quiet: "batches (concat (replicate n [Get w p, Sleep 12])) = []" for n w p
    by (induction n) auto
  obtain evs out where p: "run bs pre s = (evs, out)" by (cases "run bs pre s")
  have "batches (fst (run bs (pre @ fs @ rs) s)) = batches (fst (run bs (pre @ rs) s))
      \<and> snd (run bs (pre @ fs @ rs) s) = snd (run bs (pre @ rs) s)"
  proof (cases out)
    case (Running t)
    show ?thesis
      unfolding run_append[of bs pre] p Running using lead[of t]
      by (simp add: batches_append quiet)
  qed (simp_all add: run_append[of bs pre] p)
  then show ?thesis using it[of s] lead[of s] by blast
qed

text \<open>
  C6, witness: two faults, then a reply with two new documents, batch size 2. The
  request is issued three times with the same lower bound and page, and the one batch
  holds both documents.
\<close>

theorem fault_retry_witness:
  "fault quota_fault \<noteq> None \<and>
   iteration 2 quota_fault initial = ([Get ''0000-01-01'' 0, Sleep 12], Running initial) \<and>
   run 2 ([quota_fault, quota_fault] @ [reply [article ''a'' ''2021-08-01'', article ''b'' ''2021-08-02'']]) initial
   = ([Get ''0000-01-01'' 0, Sleep 12, Get ''0000-01-01'' 0, Sleep 12, Get ''0000-01-01'' 0,
       Yield [flatten (article ''b'' ''2021-08-02'') [], flatten (article ''a'' ''2021-08-01'') []],
       Sleep 12],
      Running \<lparr>current_date_lower_bound = ''0000-01-01'', page_num = 1,
               article_id_set = {Str ''a'', Str ''b''}, q = []\<rparr>)"
proof -
  have r: "run 2 [reply [article ''a'' ''2021-08-01'', article ''b'' ''2021-08-02'']] initial
    = ([Get ''0000-01-01'' 0,
       Yield [flatten (article ''b'' ''2021-08-02'') [], flatten (article ''a'' ''2021-08-01'') []],
       Sleep 12],
      Running \<lparr>current_date_lower_bound = ''0000-01-01'', page_num = 1,
               article_id_set = {Str ''a'', Str ''b''}, q = []\<rparr>)"
    by (simp add: eval_defs insert_commute)
  have q: "fault quota_fault \<noteq> None"
    by (simp add: quota_fault_def)
  then have f: "\<forall>f \<in> set [quota_fault, quota_fault]. fault f \<noteq> None"
    by simp
  have i: "current_date_lower_bound initial = ''0000-01-01''" "page_num initial = 0"
    by (simp_all add: initial_def)
  note c = fault_retry[OF f, of 2 initial "[reply [article ''a'' ''2021-08-01'', article ''b'' ''2021-08-02'']]"]
  have c1: "iteration 2 quota_fault initial = ([Get ''0000-01-01'' 0, Sleep 12], Running initial)"
    using c i by simp
  have c2: "run 2 ([quota_fault, quota_fault] @ [reply [article ''a'' ''2021-08-01'', article ''b'' ''2021-08-02'']]) initial
      = (concat (replicate (length [quota_fault, quota_fault])
                   [Get (current_date_lower_bound initial) (page_num initial), Sleep 12])
           @ fst (run 2 [reply [article ''a'' ''2021-08-01'', article ''b'' ''2021-08-02'']] initial),
         snd (run 2 [reply [article ''a'' ''2021-08-01'', article ''b'' ''2021-08-02'']] initial))"
    using c by blast
  show ?thesis
    unfolding c1 c2 r i using q by simp
qed

section \<open>Terminal replies\<close>

text \<open>
  C7. A reply without a fault whose status is \<^verbatim>\<open>ERROR\<close> or whose hit count is 0
  ends the generator by \<^verbatim>\<open>break\<close>: no exception, no batch beyond those the
  earlier replies produced, and the replies after it are never requested. When it is
  the first reply, the run is one request and no batch.
\<close>

theorem terminal_reply_ends_run:
  assumes "fault r = None" and "status r = ''ERROR'' \<or> hits r = 0"
  shows "batches (fst (run bs (pre @ r # rs) s)) = batches (fst (run bs pre s))
       \<and> (\<forall>s'. snd (run bs pre s) = Running s' \<longrightarrow> snd (run bs (pre @ r # rs) s) = Finished)
       \<and> getDataBatch bs (r # rs) = ([Get ''0000-01-01'' 0], Finished)"
  using iteration_terminal[OF assms]
  by (auto simp: run_append batches_append getDataBatch_def initial_def split: prod.splits outcome.splits)

text \<open>C7, witness: a first reply with zero hits, followed by one with a document.\<close>

theorem terminal_reply_ends_run_witness:
  "fault (reply []) = None \<and> (status (reply []) = ''ERROR'' \<or> hits (reply []) = 0)
   \<and> snd (run 10 [] initial) = Running initial
   \<and> snd (run 10 ([] @ reply [] # [reply [article ''a'' ''2021-08-01'']]) initial) = Finished
   \<and> getDataBatch 10 (reply [] # [reply [article ''a'' ''2021-08-01'']]) = ([Get ''0000-01-01'' 0], Finished)"
proof -
  have h: "fault (reply []) = None" "status (reply []) = ''ERROR'' \<or> hits (reply []) = 0"
    by (simp_all add: reply_def)
  show ?thesis
    using terminal_reply_ends_run[OF h, of 10 "[]" "[reply [article ''a'' ''2021-08-01'']]" initial] h
    by simp
qed

section \<open>Flattening\<close>


section \<open>The read of the last document\<close>

lemma iteration_index_error:
  "snd (iteration bs r s) = Aborted IndexError_list \<longleftrightarrow>
   fault r = None \<and> status r \<noteq> ''ERROR'' \<and> hits r \<noteq> 0 \<and> docs r = [] \<and> 99 \<le> page_num s"
proof (cases "docs r = []")
  case True
  then show ?thesis
    by (auto simp: iteration_def Let_def advance_def split: sum.splits prod.splits dest: getn_error)
next
  case False
  then show ?thesis
    by (auto simp: iteration_def Let_def advance_error split: sum.splits prod.splits  dest: getn_error dedup_error)
qed

lemma run_no_index_error:
  assumes "\<forall>r \<in> set rs. fault r = None \<and> status r \<noteq> ''ERROR'' \<and> hits r \<noteq> 0 \<longrightarrow> docs r \<noteq> []"
  shows "snd (run bs rs s) \<noteq> Aborted IndexError_list"
  using assms
proof (induction rs arbitrary: s)
  case Nil
  show ?case by simp
next
  case (Cons r rs)
  obtain evs out where it: "iteration bs r s = (evs, out)" by (cases "iteration bs r s")
  have ok: "out \<noteq> Aborted IndexError_list"
    using Cons.prems iteration_index_error[of bs r s] it by auto
  show ?case
  proof (cases out)
    case (Running s')
    obtain evs' out' where r: "run bs rs s' = (evs', out')" by (cases "run bs rs s'")
    show ?thesis
      using Cons.IH[of s'] Cons.prems it Running r by auto
  qed (use ok it in auto)
qed

lemma iteration_empty_page:
  assumes "1 \<le> bs" and "q s = []" and "page_num s < 99"
  shows "iteration bs empty_page s =
     ([Get (current_date_lower_bound s) (page_num s), Sleep 12], Running (s\<lparr>page_num := page_num s + 1\<rparr>))"
  using assms by (simp add: iteration_def empty_page_def advance_def)

lemma iteration_empty_page_100:
  assumes "99 \<le> page_num s"
  shows "iteration bs empty_page s = ([Get (current_date_lower_bound s) (page_num s)], Aborted IndexError_list)"
  using assms by (simp add: iteration_def empty_page_def advance_def)

lemma run_empty_pages:
  assumes "1 \<le> bs" and "q s = []" and "page_num s + int n \<le> 99"
  shows "snd (run bs (replicate n empty_page) s) = Running (s\<lparr>page_num := page_num s + int n\<rparr>)
       \<and> batches (fst (run bs (replicate n empty_page) s)) = []"
  using assms
proof (induction n arbitrary: s)
  case 0
  show ?case by simp
next
  case (Suc n)
  let ?s = "s\<lparr>page_num := page_num s + 1\<rparr>"
  have it: "iteration bs empty_page s =
     ([Get (current_date_lower_bound s) (page_num s), Sleep 12], Running ?s)"
    using Suc.prems by (intro iteration_empty_page) auto
  obtain evs out where r: "run bs (replicate n empty_page) ?s = (evs, out)"
    by (cases "run bs (replicate n empty_page) ?s")
  have "snd (run bs (replicate n empty_page) ?s) = Running (?s\<lparr>page_num := page_num ?s + int n\<rparr>)
       \<and> batches (fst (run bs (replicate n empty_page) ?s)) = []"
    using Suc.prems by (intro Suc.IH) auto
  then have ih: "out = Running (s\<lparr>page_num := page_num s + int (Suc n)\<rparr>)" "batches evs = []"
    using r by (simp_all add: add.commute add.left_commute)
  show ?case
    using it r ih by simp
qed

lemma run_empty_pages_abort:
  assumes "1 \<le> bs" and "q s = []" and "page_num s + int n = 99"
  shows "snd (run bs (replicate n empty_page @ [empty_page]) s) = Aborted IndexError_list
       \<and> batches (fst (run bs (replicate n empty_page @ [empty_page]) s)) = []"
proof -
  let ?s = "s\<lparr>page_num := page_num s + int n\<rparr>"
  obtain evs out where r: "run bs (replicate n empty_page) s = (evs, out)"
    by (cases "run bs (replicate n empty_page) s")
  have o: "out = Running ?s" "batches evs = []"
    using run_empty_pages[of bs s n] assms r by simp_all
  have i: "iteration bs empty_page ?s
     = ([Get (current_date_lower_bound ?s) (page_num ?s)], Aborted IndexError_list)"
    using assms by (intro iteration_empty_page_100) simp
  show ?thesis
    using r o i by (simp add: run_append batches_append)
qed

lemma getDataBatch_empty_pages:
  assumes "1 \<le> bs"
  shows "snd (getDataBatch bs (replicate 100 empty_page)) = Aborted IndexError_list
       \<and> batches (fst (getDataBatch bs (replicate 100 empty_page))) = []"
proof -
  have "(100::nat) = Suc 99" by simp
  then have "replicate 100 empty_page = replicate (Suc 99) empty_page"
    by (simp only:)
  also have "\<dots> = replicate 99 empty_page @ [empty_page]"
    by (simp only: replicate_append_same replicate_Suc)
  finally have e: "replicate 100 empty_page = replicate 99 empty_page @ [empty_page]" .
  have p: "page_num initial + int 99 = 99" "q initial = []"
    by (simp_all add: initial_def)
  show ?thesis
    unfolding getDataBatch_def e
    by (rule run_empty_pages_abort[OF assms p(2) p(1)])
qed

text \<open>
  C10. \<^verbatim>\<open>docs[-1]\<close> is read only on a pass that got past the three guards (no
  fault, status not \<^verbatim>\<open>ERROR\<close>, hit count not 0; for a count, a positive one) and
  whose incremented page number has reached 100. If every reply that passes the guards
  carries at least one document, no run aborts with the \<^verbatim>\<open>IndexError\<close> of that
  read. Without it the read is out of range: a reply with a non-zero hit count and no
  documents, arriving at page number 99 or more, aborts the generator there, and from
  the initial state a hundred such replies in a row, with a batch size of at least 1,
  end in this abort without any batch.
\<close>

theorem last_doc_read:
  "((\<forall>r \<in> set rs. fault r = None \<and> status r \<noteq> ''ERROR'' \<and> hits r \<noteq> 0 \<longrightarrow> docs r \<noteq> [])
      \<longrightarrow> snd (run bs rs s) \<noteq> Aborted IndexError_list)
   \<and> (fault r = None \<and> status r \<noteq> ''ERROR'' \<and> hits r \<noteq> 0 \<and> docs r = [] \<and> 99 \<le> page_num s
      \<longrightarrow> iteration bs r s = ([Get (current_date_lower_bound s) (page_num s)], Aborted IndexError_list))
   \<and> (1 \<le> bs \<longrightarrow> snd (getDataBatch bs (replicate 100 empty_page)) = Aborted IndexError_list
                 \<and> batches (fst (getDataBatch bs (replicate 100 empty_page))) = [])"
proof (intro conjI impI)
  assume "\<forall>r \<in> set rs. fault r = None \<and> status r \<noteq> ''ERROR'' \<and> hits r \<noteq> 0 \<longrightarrow> docs r \<noteq> []"
  then show "snd (run bs rs s) \<noteq> Aborted IndexError_list" by (rule run_no_index_error)
next
  assume "fault r = None \<and> status r \<noteq> ''ERROR'' \<and> hits r \<noteq> 0 \<and> docs r = [] \<and> 99 \<le> page_num s"
  then show "iteration bs r s = ([Get (current_date_lower_bound s) (page_num s)], Aborted IndexError_list)"
    by (simp add: iteration_def advance_def)
qed (use getDataBatch_empty_pages in blast)+


text \<open>
  C10, witness: the reply \<open>empty_page\<close> (one hit, no documents) at page number 99, a
  hundred of them from the start, and a reply with a document at page number 99.
\<close>

theorem last_doc_read_witness:
  "fault empty_page = None \<and> status empty_page \<noteq> ''ERROR'' \<and> hits empty_page \<noteq> 0 \<and>
   docs empty_page = [] \<and> 99 \<le> page_num (initial\<lparr>page_num := 99\<rparr>) \<and>
   iteration 10 empty_page (initial\<lparr>page_num := 99\<rparr>)
     = ([Get ''0000-01-01'' 99], Aborted IndexError_list) \<and>
   (1::int) \<le> 10 \<and>
   snd (getDataBatch 10 (replicate 100 empty_page)) = Aborted IndexError_list \<and>
   docs (reply [article ''a'' ''2021-08-01'']) \<noteq> [] \<and>
   snd (run 10 [reply [article ''a'' ''2021-08-01'']] (initial\<lparr>page_num := 99\<rparr>))
     \<noteq> Aborted IndexError_list"
proof -
  note t = last_doc_read[of "[reply [article ''a'' ''2021-08-01'']]" 10
      "initial\<lparr>page_num := 99\<rparr>" empty_page]
  have h: "fault empty_page = None \<and> status empty_page \<noteq> ''ERROR'' \<and> hits empty_page \<noteq> 0 \<and>
     docs empty_page = [] \<and> 99 \<le> page_num (initial\<lparr>page_num := 99\<rparr>)"
    by (simp add: empty_page_def)
  have d: "docs (reply [article ''a'' ''2021-08-01'']) \<noteq> []"
    by (simp add: reply_def)
  then have g: "\<forall>r \<in> set [reply [article ''a'' ''2021-08-01'']].
      fault r = None \<and> status r \<noteq> ''ERROR'' \<and> hits r \<noteq> 0 \<longrightarrow> docs r \<noteq> []"
    by simp
  have c1: "snd (run 10 [reply [article ''a'' ''2021-08-01'']] (initial\<lparr>page_num := 99\<rparr>))
     \<noteq> Aborted IndexError_list"
    using t g by blast
  have c2: "iteration 10 empty_page (initial\<lparr>page_num := 99\<rparr>)
     = ([Get (current_date_lower_bound (initial\<lparr>page_num := 99\<rparr>))
             (page_num (initial\<lparr>page_num := 99\<rparr>))], Aborted IndexError_list)"
    using t h by blast
  have c3: "snd (getDataBatch 10 (replicate 100 empty_page)) = Aborted IndexError_list"
    using t by simp
  have i: "current_date_lower_bound (initial\<lparr>page_num := 99\<rparr>) = ''0000-01-01''"
      "page_num (initial\<lparr>page_num := 99\<rparr>) = 99"
    by (simp_all add: initial_def)
  show ?thesis
    using h d c1 c2 c3 unfolding i by (intro conjI) simp_all
qed

section \<open>The page number and the lower bound of the date\<close>

lemma advance_Inr:
  assumes "advance ds page bound = Inr (bound', page')"
  shows "page' = (if 100 \<le> page then 0 else page)"
    and "page < 100 \<Longrightarrow> bound' = bound"
    and "100 \<le> page \<Longrightarrow> ds \<noteq> [] \<and> date_prefix (last ds) = Some bound'"
  using assms
  by (auto simp: advance_def date_prefix_def split: if_splits option.splits json.splits scalar.splits)

lemma iteration_Running:
  assumes "fault r = None" and "iteration bs r s = (evs, Running s')"
  shows "\<exists>ids dq. advance (docs r) (page_num s + 1) (current_date_lower_bound s)
            = Inr (current_date_lower_bound s', page_num s')
          \<and> dedup (docs r) (article_id_set s) (q s) = Inr (ids, dq)
          \<and> article_id_set s' = ids"
  using assms
  by (auto simp: iteration_def Let_def split: if_splits sum.splits prod.splits)

lemma run_snoc_Running:
  assumes "run bs (rs @ [r]) s = (evs, Running s')"
  shows "\<exists>evs1 s1 evs2. run bs rs s = (evs1, Running s1) \<and> iteration bs r s1 = (evs2, Running s')
           \<and> evs = evs1 @ evs2"
proof -
  obtain evs1 out1 where r1: "run bs rs s = (evs1, out1)" by (cases "run bs rs s")
  show ?thesis
  proof (cases out1)
    case (Running s1)
    obtain evs2 out2 where i: "iteration bs r s1 = (evs2, out2)" by (cases "iteration bs r s1")
    show ?thesis
      using assms r1 Running i by (cases out2) (auto simp: run_append)
  qed (use assms r1 in \<open>auto simp: run_append\<close>)
qed

lemma mod100_wrap: "n mod 100 = 99 \<Longrightarrow> Suc n mod 100 = (0::nat)"
  by (simp add: mod_Suc)

lemma mod100_step: "n mod 100 \<noteq> 99 \<Longrightarrow> int (Suc n mod 100) = int (n mod 100) + 1"
  by (simp add: mod_Suc)

lemma div100_step: "n mod 100 \<noteq> 99 \<Longrightarrow> Suc n div 100 = n div 100"
  by (simp add: div_Suc mod_Suc)

lemma div100_wrap:
  assumes "n mod 100 = 99"
  shows "100 * (Suc n div 100) - 1 = (n::nat)"
proof -
  have "Suc n div 100 = Suc (n div 100)" using assms by (simp add: div_Suc mod_Suc)
  moreover have "100 * (n div 100) + n mod 100 = n" by (rule mult_div_mod_eq)
  ultimately show ?thesis using assms by simp
qed

lemma mod100_ge: "n mod 100 \<noteq> 99 \<Longrightarrow> \<not> Suc n < 100 \<Longrightarrow> 100 \<le> (n::nat)"
  by (cases "n = 99") auto

lemma div100_less:
  assumes "100 \<le> n"
  shows "100 * (n div 100) - 1 < (n::nat)"
proof -
  have "100 * (n div 100) + n mod 100 = n" by (rule mult_div_mod_eq)
  then have "100 * (n div 100) \<le> n" by linarith
  with assms show ?thesis by linarith
qed

lemma mod100_wrap_ge: "n mod 100 = 99 \<Longrightarrow> 100 \<le> Suc (n::nat)"
  by (cases "n < 99") auto

lemma watermark_run:
  assumes "\<forall>r \<in> set rs. fault r = None" and "run bs rs initial = (evs, Running s')"
  shows "page_num s' = int (length rs mod 100)
       \<and> (length rs < 100 \<longrightarrow> current_date_lower_bound s' = ''0000-01-01'')
       \<and> (100 \<le> length rs \<longrightarrow>
            docs (rs ! (100 * (length rs div 100) - 1)) \<noteq> [] \<and>
            date_prefix (last (docs (rs ! (100 * (length rs div 100) - 1))))
              = Some (current_date_lower_bound s'))"
  using assms
proof (induction rs arbitrary: evs s' rule: rev_induct)
  case Nil
  then show ?case by (auto simp: initial_def)
next
  case (snoc r rs)
  obtain evs1 s1 evs2 where r1: "run bs rs initial = (evs1, Running s1)"
      and it: "iteration bs r s1 = (evs2, Running s')"
    using run_snoc_Running[OF snoc.prems(2)] by blast
  have f: "fault r = None" using snoc.prems(1) by simp
  obtain ids dq where adv: "advance (docs r) (page_num s1 + 1) (current_date_lower_bound s1)
            = Inr (current_date_lower_bound s', page_num s')"
    using iteration_Running[OF f it] by blast
  have ih: "page_num s1 = int (length rs mod 100)"
      "length rs < 100 \<Longrightarrow> current_date_lower_bound s1 = ''0000-01-01''"
      "100 \<le> length rs \<Longrightarrow> docs (rs ! (100 * (length rs div 100) - 1)) \<noteq> [] \<and>
            date_prefix (last (docs (rs ! (100 * (length rs div 100) - 1))))
              = Some (current_date_lower_bound s1)"
    using snoc.IH[OF _ r1] snoc.prems(1) by simp_all
  define n where "n = length rs"
  show ?case
  proof (cases "n mod 100 = 99")
    case True
    then have p: "100 \<le> page_num s1 + 1" using ih(1) by (simp add: n_def)
    have idx: "100 * (Suc n div 100) - 1 = n" using True by (rule div100_wrap)
    have m: "Suc n mod 100 = 0" using True by (rule mod100_wrap)
    have "page_num s' = 0" "docs r \<noteq> [] \<and> date_prefix (last (docs r)) = Some (current_date_lower_bound s')"
      using advance_Inr(1,3)[OF adv] p by simp_all
    moreover have "100 \<le> Suc n" using True by (rule mod100_wrap_ge)
    moreover have "(rs @ [r]) ! n = r" by (simp add: n_def)
    ultimately show ?thesis
      using idx m by (simp add: n_def[symmetric])
  next
    case False
    then have p: "page_num s1 + 1 < 100" using ih(1) by (simp add: n_def)
    have m: "int (Suc n mod 100) = int (n mod 100) + 1" using False by (rule mod100_step)
    have pg: "page_num s' = page_num s1 + 1" and wm: "current_date_lower_bound s' = current_date_lower_bound s1"
      using advance_Inr(1,2)[OF adv] p by simp_all
    show ?thesis
    proof (cases "Suc n < 100")
      case True
      then show ?thesis using pg wm ih(1,2) m by (simp add: n_def[symmetric])
    next
      case ge: False
      then have n100: "100 \<le> n" using False by (intro mod100_ge)
      have d: "Suc n div 100 = n div 100" using False by (rule div100_step)
      have lt: "100 * (n div 100) - 1 < n" using n100 by (rule div100_less)
      show ?thesis
        using pg wm ih(1) ih(3)[unfolded n_def[symmetric], OF n100] m ge d lt
        by (simp add: n_def[symmetric] nth_append)
    qed
  qed
qed


text \<open>
  C5. A pass that received documents and goes on leaves the page number incremented,
  and the date lower bound as it was, unless the incremented page number has reached
  100: then the page number is 0 and the lower bound is the first ten characters of
  the publication date of the last document of the reply. Hence, in a run from the
  initial state in which every reply carried documents, after \<open>n\<close> replies the page
  number is \<open>n mod 100\<close> and the lower bound is the initial one while \<open>n < 100\<close>,
  and afterwards the date prefix of the last document of the latest reply whose number
  is a multiple of 100: it moves every 100 pages and at no other time.
\<close>

theorem watermark_advance:
  "(fault r = None \<and> iteration bs r s = (evs, Running s') \<longrightarrow>
      page_num s' = (if 100 \<le> page_num s + 1 then 0 else page_num s + 1) \<and>
      (page_num s + 1 < 100 \<longrightarrow> current_date_lower_bound s' = current_date_lower_bound s) \<and>
      (100 \<le> page_num s + 1 \<longrightarrow>
         docs r \<noteq> [] \<and> date_prefix (last (docs r)) = Some (current_date_lower_bound s')))
   \<and> ((\<forall>x \<in> set rs. fault x = None) \<and> run bs rs initial = (evs2, Running s2) \<longrightarrow>
      page_num s2 = int (length rs mod 100) \<and>
      (length rs < 100 \<longrightarrow> current_date_lower_bound s2 = ''0000-01-01'') \<and>
      (100 \<le> length rs \<longrightarrow>
         docs (rs ! (100 * (length rs div 100) - 1)) \<noteq> [] \<and>
         date_prefix (last (docs (rs ! (100 * (length rs div 100) - 1))))
           = Some (current_date_lower_bound s2)))"
proof (intro conjI impI; (elim conjE)?)
  assume f: "fault r = None" and it: "iteration bs r s = (evs, Running s')"
  obtain ids dq where adv: "advance (docs r) (page_num s + 1) (current_date_lower_bound s)
            = Inr (current_date_lower_bound s', page_num s')"
    using iteration_Running[OF f it] by blast
  show "page_num s' = (if 100 \<le> page_num s + 1 then 0 else page_num s + 1)"
    using advance_Inr(1)[OF adv] .
  { assume "page_num s + 1 < 100"
    then show "current_date_lower_bound s' = current_date_lower_bound s"
      using advance_Inr(2)[OF adv] by simp }
  { assume "100 \<le> page_num s + 1"
    then show "docs r \<noteq> []" "date_prefix (last (docs r)) = Some (current_date_lower_bound s')"
      using advance_Inr(3)[OF adv] by simp_all }
next
  assume a: "\<forall>x \<in> set rs. fault x = None" "run bs rs initial = (evs2, Running s2)"
  note w = watermark_run[OF a]
  show "page_num s2 = int (length rs mod 100)" using w by blast
  { assume "length rs < 100"
    then show "current_date_lower_bound s2 = ''0000-01-01''" using w by blast }
  { assume "100 \<le> length rs"
    then show "docs (rs ! (100 * (length rs div 100) - 1)) \<noteq> []"
      "date_prefix (last (docs (rs ! (100 * (length rs div 100) - 1))))
           = Some (current_date_lower_bound s2)" using w by blast+ }
qed


text \<open>A run of a hundred replies, each carrying the same document.\<close>

lemma hundred_pages:
  "snd (getDataBatch 10 (replicate 100 (reply [article ''a'' ''2021-08-01T12:00:00'']))) =
   Running \<lparr>current_date_lower_bound = ''2021-08-01'', page_num = 0,
            article_id_set = {Str ''a''},
            q = [flatten (article ''a'' ''2021-08-01T12:00:00'') []]\<rparr>"
  by code_simp

text \<open>
  C5, witness: the hundredth reply of that run, and the run as a whole: the page number
  is back at 0 and the lower bound is the date of the document.
\<close>

theorem watermark_advance_witness:
  "fault (reply [article ''a'' ''2021-08-01T12:00:00'']) = None \<and>
   snd (run 10 (replicate 100 (reply [article ''a'' ''2021-08-01T12:00:00''])) initial) =
     Running \<lparr>current_date_lower_bound = ''2021-08-01'', page_num = 0,
              article_id_set = {Str ''a''},
              q = [flatten (article ''a'' ''2021-08-01T12:00:00'') []]\<rparr> \<and>
   100 \<le> length (replicate 100 (reply [article ''a'' ''2021-08-01T12:00:00''])) \<and>
   (0::int) = int (length (replicate 100 (reply [article ''a'' ''2021-08-01T12:00:00''])) mod 100) \<and>
   date_prefix (last (docs (replicate 100 (reply [article ''a'' ''2021-08-01T12:00:00''])
       ! (100 * (length (replicate 100 (reply [article ''a'' ''2021-08-01T12:00:00''])) div 100) - 1))))
     = Some ''2021-08-01'' \<and>
   iteration 10 (reply [article ''a'' ''2021-08-01T12:00:00'']) (initial\<lparr>page_num := 99\<rparr>) =
     ([Get ''0000-01-01'' 99, Sleep 12],
      Running \<lparr>current_date_lower_bound = ''2021-08-01'', page_num = 0,
              article_id_set = {Str ''a''},
              q = [flatten (article ''a'' ''2021-08-01T12:00:00'') []]\<rparr>) \<and>
   date_prefix (last (docs (reply [article ''a'' ''2021-08-01T12:00:00'']))) = Some ''2021-08-01''"
proof -
  let ?r = "reply [article ''a'' ''2021-08-01T12:00:00'']"
  let ?rs = "replicate 100 ?r"
  let ?s = "\<lparr>current_date_lower_bound = ''2021-08-01'', page_num = 0,
              article_id_set = {Str ''a''},
              q = [flatten (article ''a'' ''2021-08-01T12:00:00'') []]\<rparr>"
  have f: "fault ?r = None" by (simp add: reply_def)
  then have fs: "\<forall>x \<in> set ?rs. fault x = None" by (simp only: set_replicate_conv_if) simp
  have sn: "snd (run 10 ?rs initial) = Running ?s"
    using hundred_pages unfolding getDataBatch_def .
  then have r: "run 10 ?rs initial = (fst (run 10 ?rs initial), Running ?s)"
    by (metis prod.collapse)
  have it: "iteration 10 ?r (initial\<lparr>page_num := 99\<rparr>) = ([Get ''0000-01-01'' 99, Sleep 12], Running ?s)"
    by (simp add: eval_defs)
  have len: "100 \<le> length ?rs" by (simp only: length_replicate)
  note t = watermark_advance[of ?r 10 "initial\<lparr>page_num := 99\<rparr>" "[Get ''0000-01-01'' 99, Sleep 12]" ?s
      ?rs "fst (run 10 ?rs initial)" ?s]
  have c1: "page_num ?s = int (length ?rs mod 100)"
    using t fs r by blast
  have c2: "date_prefix (last (docs (?rs ! (100 * (length ?rs div 100) - 1))))
     = Some (current_date_lower_bound ?s)"
    using t fs r len by blast
  have c3: "date_prefix (last (docs ?r)) = Some (current_date_lower_bound ?s)"
    using t f it by (simp add: initial_def)
  have sel: "page_num ?s = 0" "current_date_lower_bound ?s = ''2021-08-01''"
    by simp_all
  show ?thesis
    using f sn len c1 c2 c3 it unfolding sel by (intro conjI)
qed

section \<open>Each id at most once\<close>











section \<open>Flattening and re-nesting\<close>

subsection \<open>dict on distinct keys\<close>

lemma update_fresh: "k \<notin> fst ` set al \<Longrightarrow> AList.update k v al = al @ [(k, v)]"
  by (induction al) auto

lemma update_at_end: "k \<notin> fst ` set al \<Longrightarrow> AList.update k v (al @ [(k, w)]) = al @ [(k, v)]"
  by (induction al) auto

lemma fold_update_distinct:
  "distinct (map fst (acc @ xs)) \<Longrightarrow> fold (\<lambda>(k, v). AList.update k v) xs acc = acc @ xs"
proof (induction xs arbitrary: acc)
  case Nil
  show ?case by simp
next
  case (Cons a xs)
  obtain k v where a: "a = (k, v)" by (cases a)
  have "AList.update k v acc = acc @ [(k, v)]"
    using Cons.prems a by (intro update_fresh) auto
  then show ?case
    using Cons.IH[of "acc @ [(k, v)]"] Cons.prems a by simp
qed

lemma dict_distinct: "distinct (map fst xs) \<Longrightarrow> dict xs = xs"
  using fold_update_distinct[of "[]" xs] by (simp add: dict_def)

subsection \<open>split and join\<close>

lemma split_dot_plain: "CHR ''.'' \<notin> set k \<Longrightarrow> split_dot k = [k]"
  by (induction k) auto

lemma split_dot_append: "CHR ''.'' \<notin> set k \<Longrightarrow> split_dot (k @ CHR ''.'' # r) = k # split_dot r"
  by (induction k) auto

lemma split_dot_join:
  "p \<noteq> [] \<Longrightarrow> \<forall>k \<in> set p. CHR ''.'' \<notin> set k \<Longrightarrow> split_dot (dot_join p) = p"
  by (induction p rule: dot_join.induct) (auto simp: split_dot_plain split_dot_append)


subsection \<open>Rebuilding from the leaves\<close>

lemma build_Nil: "build [] t = t"
  by (simp add: build_def)

lemma build_Cons: "build ((p, x) # ps) t = build ps (insert_path p x t)"
  by (simp add: build_def)

lemma build_append: "build (ps @ qs) t = build qs (build ps t)"
  by (simp add: build_def)

lemma map_of_at_end: "k \<notin> fst ` set acc \<Longrightarrow> map_of (acc @ [(k, v)]) k = Some v"
  by (induction acc) auto

lemma map_of_fresh: "k \<notin> fst ` set acc \<Longrightarrow> map_of acc k = None"
  by (simp add: map_of_eq_None_iff)

lemma insert_path_under:
  assumes "k \<notin> fst ` set acc" and "p \<noteq> []"
  shows "insert_path (k # p) x (acc @ [(k, Dict sub)]) = acc @ [(k, Dict (insert_path p x sub))]"
proof -
  obtain k' p' where p: "p = k' # p'" using assms(2) by (cases p) auto
  show ?thesis
    using assms(1) by (simp add: p map_add_def map_of_fresh update_at_end)
qed

lemma insert_path_new:
  assumes "k \<notin> fst ` set acc" and "p \<noteq> []"
  shows "insert_path (k # p) x acc = acc @ [(k, Dict (insert_path p x []))]"
proof -
  obtain k' p' where p: "p = k' # p'" using assms(2) by (cases p) auto
  show ?thesis
    using assms(1) by (simp add: p map_of_fresh update_fresh)
qed

lemma build_under:
  assumes "k \<notin> fst ` set acc" and "\<forall>(p, x) \<in> set ps. p \<noteq> []"
  shows "build (map (\<lambda>(p, x). (k # p, x)) ps) (acc @ [(k, Dict sub)])
         = acc @ [(k, Dict (build ps sub))]"
  using assms(2)
proof (induction ps arbitrary: sub)
  case Nil
  show ?case by (simp add: build_Nil)
next
  case (Cons a ps)
  obtain p x where a: "a = (p, x)" by (cases a)
  have "p \<noteq> []" using Cons.prems a by simp
  then show ?case
    using Cons.IH[of "insert_path p x sub"] Cons.prems a assms(1)
    by (simp add: build_Cons insert_path_under)
qed

lemma build_new:
  assumes "k \<notin> fst ` set acc" and "\<forall>(p, x) \<in> set ps. p \<noteq> []" and "ps \<noteq> []"
  shows "build (map (\<lambda>(p, x). (k # p, x)) ps) acc = acc @ [(k, Dict (build ps []))]"
proof -
  obtain p x ps' where ps: "ps = (p, x) # ps'" using assms(3) by (cases ps) auto
  have ne: "p \<noteq> []" and rest: "\<forall>(p, x) \<in> set ps'. p \<noteq> []" using assms(2) ps by auto
  show ?thesis
    using build_under[OF assms(1) rest, of "insert_path p x []"] assms(1) ne
    by (simp add: ps build_Cons insert_path_new)
qed

lemma leaf_paths_nonempty: "\<forall>(p, x) \<in> set (leaf_paths d). p \<noteq> []"
  by (induction d rule: leaf_paths.induct) auto

lemma leaf_paths_Nil: "no_empty_branch d \<Longrightarrow> leaf_paths d = [] \<longleftrightarrow> d = []"
  by (induction d rule: leaf_paths.induct) auto

lemma build_leaf_paths:
  assumes "wf_mapping d" and "no_empty_branch d" and "fst ` set d \<inter> fst ` set acc = {}"
  shows "build (leaf_paths d) acc = acc @ d"
  using assms
proof (induction d arbitrary: acc rule: leaf_paths.induct)
  case 1
  show ?case by (simp add: build_Nil)
next
  case (2 k x d)
  have "build (leaf_paths d) (acc @ [(k, Leaf x)]) = (acc @ [(k, Leaf x)]) @ d"
    using "2.prems" by (intro "2.IH") auto
  then show ?case
    using "2.prems" by (simp add: build_Cons update_fresh)
next
  case (3 k v d)
  have k: "k \<notin> fst ` set acc" using "3.prems" by auto
  have v: "build (leaf_paths v) [] = v"
    using "3.IH"(1)[of "[]"] "3.prems" by simp
  have ne: "leaf_paths v \<noteq> []"
    using "3.prems" by (simp add: leaf_paths_Nil)
  have "build (map (\<lambda>(p, x). (k # p, x)) (leaf_paths v)) acc = acc @ [(k, Dict v)]"
    using build_new[OF k leaf_paths_nonempty ne] v by simp
  moreover have "build (leaf_paths d) (acc @ [(k, Dict v)]) = (acc @ [(k, Dict v)]) @ d"
    using "3.prems" by (intro "3.IH"(2)) auto
  ultimately show ?case
    by (simp add: build_append)
qed


subsection \<open>The paths of a well-formed mapping\<close>

lemma leaf_paths_head: "(p, x) \<in> set (leaf_paths d) \<Longrightarrow> p \<noteq> [] \<and> hd p \<in> fst ` set d"
  by (induction d rule: leaf_paths.induct) auto

lemma distinct_map_inj: "distinct ys \<Longrightarrow> inj_on g (set ys) \<Longrightarrow> distinct (map g ys)"
  by (simp add: distinct_map)

lemma distinct_map_Cons: "distinct ys \<Longrightarrow> distinct (map ((#) k) ys)"
  by (simp add: distinct_map)

lemma leaf_paths_distinct: "wf_mapping d \<Longrightarrow> distinct (map fst (leaf_paths d))"
proof (induction d rule: leaf_paths.induct)
  case 1
  show ?case by simp
next
  case (2 k x d)
  have "[k] \<notin> fst ` set (leaf_paths d)"
    using "2.prems" leaf_paths_head[of "[k]" _ d] by auto
  then show ?case using 2 by simp
next
  case (3 k v d)
  have m: "map fst (map (\<lambda>(p, x). (k # p, x)) (leaf_paths v)) = map ((#) k) (map fst (leaf_paths v))"
    by (simp add: case_prod_unfold)
  have "distinct (map fst (leaf_paths v))"
    using 3 by simp
  then have "distinct (map ((#) k) (map fst (leaf_paths v)))"
    by (rule distinct_map_Cons)
  moreover have "set (map ((#) k) (map fst (leaf_paths v))) \<inter> fst ` set (leaf_paths d) = {}"
  proof -
    { fix p assume "p \<in> fst ` set (leaf_paths d)"
      then obtain x where "(p, x) \<in> set (leaf_paths d)" by auto
      then have "hd p \<in> fst ` set d" by (simp add: leaf_paths_head)
      then have "hd p \<noteq> k" using "3.prems" by auto }
    then show ?thesis by fastforce
  qed
  ultimately show ?case
    using 3 unfolding leaf_paths.simps map_append m by (simp del: map_map)
qed

lemma leaf_paths_dot_free:
  "dot_free_keys d \<Longrightarrow> (p, x) \<in> set (leaf_paths d) \<Longrightarrow> \<forall>k \<in> set p. CHR ''.'' \<notin> set k"
  by (induction d arbitrary: p rule: leaf_paths.induct) auto

lemma dot_join_inject:
  assumes "p \<noteq> []" "\<forall>k \<in> set p. CHR ''.'' \<notin> set k"
    and "p' \<noteq> []" "\<forall>k \<in> set p'. CHR ''.'' \<notin> set k"
    and "dot_join p = dot_join p'"
  shows "p = p'"
  using split_dot_join[OF assms(1,2)] split_dot_join[OF assms(3,4)] assms(5) by metis

lemma keys_distinct:
  assumes "wf_mapping d" and "dot_free_keys d"
  shows "distinct (map (\<lambda>(p, x). pre @ dot_join p) (leaf_paths d))"
proof -
  have "inj_on (\<lambda>p. pre @ dot_join p) (set (map fst (leaf_paths d)))"
  proof (rule inj_onI)
    fix p p' assume p: "p \<in> set (map fst (leaf_paths d))" and p': "p' \<in> set (map fst (leaf_paths d))"
      and e: "pre @ dot_join p = pre @ dot_join p'"
    from p obtain x where x: "(p, x) \<in> set (leaf_paths d)" by auto
    from p' obtain x' where x': "(p', x') \<in> set (leaf_paths d)" by auto
    have "dot_join p = dot_join p'" using e by simp
    then show "p = p'"
      using leaf_paths_head[OF x] leaf_paths_head[OF x']
        leaf_paths_dot_free[OF assms(2) x] leaf_paths_dot_free[OF assms(2) x']
      by (intro dot_join_inject) auto
  qed
  with leaf_paths_distinct[OF assms(1)]
  have "distinct (map (\<lambda>p. pre @ dot_join p) (map fst (leaf_paths d)))"
    by (rule distinct_map_inj)
  then show ?thesis by (simp add: case_prod_unfold comp_def)
qed

lemma keys_distinct_fst:
  assumes "wf_mapping d" and "dot_free_keys d"
  shows "distinct (map fst (map (\<lambda>(p, x). (pre @ dot_join p, x)) (leaf_paths d)))"
  using keys_distinct[OF assms, of pre] by (simp add: case_prod_unfold comp_def)

lemma dot_join_Cons: "p \<noteq> [] \<Longrightarrow> dot_join (k # p) = k @ CHR ''.'' # dot_join p"
  by (cases p) auto

lemma under_key:
  "map (\<lambda>(p, x). (pre @ dot_join p, x)) (map (\<lambda>(p, x). (k # p, x)) (leaf_paths v))
   = map (\<lambda>(p, x). ((pre @ k @ ''.'') @ dot_join p, x)) (leaf_paths v)"
  using leaf_paths_nonempty[of v] by (auto simp: dot_join_Cons)

lemma flatten_items_nested:
  assumes "pk \<noteq> []" and "wf_mapping d" and "dot_free_keys d"
  shows "flatten_items d pk = map (\<lambda>(p, x). ((pk @ ''.'') @ dot_join p, x)) (leaf_paths d)"
  using assms
proof (induction d pk rule: flatten_items.induct)
  case (1 pk)
  show ?case by simp
next
  case (2 k v d pk)
  have nk: "new_key pk k = pk @ ''.'' @ k" "new_key pk k \<noteq> []"
    using "2.prems" by (simp_all add: new_key_def)
  have "flatten_items v (new_key pk k)
          = map (\<lambda>(p, x). ((new_key pk k @ ''.'') @ dot_join p, x)) (leaf_paths v)"
    using "2.prems" nk by (intro "2.IH"(1)) auto
  moreover have "distinct (map fst (map (\<lambda>(p, x). ((new_key pk k @ ''.'') @ dot_join p, x)) (leaf_paths v)))"
    using "2.prems" by (intro keys_distinct_fst) auto
  ultimately have "dict (flatten_items v (new_key pk k))
          = map (\<lambda>(p, x). (((pk @ ''.'') @ k @ ''.'') @ dot_join p, x)) (leaf_paths v)"
    by (simp add: dict_distinct nk)
  moreover have "flatten_items d pk = map (\<lambda>(p, x). ((pk @ ''.'') @ dot_join p, x)) (leaf_paths d)"
    using "2.prems" by (intro "2.IH"(2)) auto
  ultimately show ?case
    using under_key[of "pk @ ''.''" k v] by simp
next
  case (3 k x d pk)
  have "flatten_items d pk = map (\<lambda>(p, x). ((pk @ ''.'') @ dot_join p, x)) (leaf_paths d)"
    using "3.prems" by (intro "3.IH") auto
  then show ?case using "3.prems" by (simp add: new_key_def)
qed

lemma flatten_items_root:
  assumes "wf_mapping d" and "dot_free_keys d" and "root_named d"
  shows "flatten_items d [] = map (\<lambda>(p, x). (dot_join p, x)) (leaf_paths d)"
  using assms
proof (induction d rule: leaf_paths.induct)
  case 1
  show ?case by simp
next
  case (2 k x d)
  then show ?case by (simp add: new_key_def)
next
  case (3 k v d)
  have k: "k \<noteq> []" "new_key [] k = k" using "3.prems" by (simp_all add: new_key_def)
  have "flatten_items v k = map (\<lambda>(p, x). ((k @ ''.'') @ dot_join p, x)) (leaf_paths v)"
    using "3.prems" k by (intro flatten_items_nested) auto
  moreover have "distinct (map fst (map (\<lambda>(p, x). ((k @ ''.'') @ dot_join p, x)) (leaf_paths v)))"
    using "3.prems" by (intro keys_distinct_fst) auto
  ultimately have "dict (flatten_items v k)
      = map (\<lambda>(p, x). (([] @ k @ ''.'') @ dot_join p, x)) (leaf_paths v)"
    by (simp add: dict_distinct)
  moreover have "flatten_items d [] = map (\<lambda>(p, x). (dot_join p, x)) (leaf_paths d)"
    using "3.prems" by (intro "3.IH"(2)) auto
  ultimately show ?case
    using under_key[of "[]" k v] k by simp
qed

lemma flatten_leaf_paths:
  assumes "wf_mapping d" and "dot_free_keys d" and "root_named d"
  shows "flatten d [] = map (\<lambda>(p, x). (dot_join p, x)) (leaf_paths d)"
  using flatten_items_root[OF assms] keys_distinct_fst[OF assms(1,2), of "[]"]
  by (simp add: flatten_def dict_distinct)

lemma renest_leaf_paths:
  assumes "dot_free_keys d"
  shows "renest (map (\<lambda>(p, x). (dot_join p, x)) (leaf_paths d)) = build (leaf_paths d) []"
proof -
  have "fold ((\<lambda>(key, x). insert_path (split_dot key) x) \<circ> (\<lambda>(p, x). (dot_join p, x))) (leaf_paths d) []
      = fold (\<lambda>(p, x). insert_path p x) (leaf_paths d) []"
  proof (rule fold_cong)
    fix a assume a: "a \<in> set (leaf_paths d)"
    obtain p x where px: "a = (p, x)" by (cases a)
    have "split_dot (dot_join p) = p"
      using a px leaf_paths_head[of p x d] leaf_paths_dot_free[OF assms, of p x]
      by (intro split_dot_join) auto
    then show "((\<lambda>(key, x). insert_path (split_dot key) x) \<circ> (\<lambda>(p, x). (dot_join p, x))) a
        = (\<lambda>(p, x). insert_path p x) a"
      by (simp add: px)
  qed simp_all
  then show ?thesis by (simp add: renest_def build_def fold_map)
qed


text \<open>
  C8, counterexample. The claim: for a nested mapping without empty mappings and
  without key collisions, every flattened key is the dot-joined path of its leaf, and
  splitting the keys at the dots and rebuilding gives the mapping back. A key that
  contains a dot is split on the way back: \<^verbatim>\<open>{'a.b': 1}\<close> comes back as
  \<^verbatim>\<open>{'a': {'b': 1}}\<close>. And \<^verbatim>\<open>parent_key\<close> is tested for truth, so under the
  empty key at the top level the prefix is lost: \<^verbatim>\<open>{'': {'x': 1}}\<close> flattens to
  \<^verbatim>\<open>{'x': 1}\<close>, not to \<^verbatim>\<open>{'.x': 1}\<close>, and comes back as \<^verbatim>\<open>{'x': 1}\<close>.
\<close>

theorem flatten_roundtrip_counterexample:
  "wf_mapping [(''a.b'', Leaf (Num 1))] \<and> no_empty_branch [(''a.b'', Leaf (Num 1))] \<and>
   collision_free [(''a.b'', Leaf (Num 1))] \<and>
   renest (flatten [(''a.b'', Leaf (Num 1))] []) = [(''a'', Dict [(''b'', Leaf (Num 1))])] \<and>
   renest (flatten [(''a.b'', Leaf (Num 1))] []) \<noteq> [(''a.b'', Leaf (Num 1))] \<and>
   wf_mapping [([], Dict [(''x'', Leaf (Num 1))])] \<and>
   no_empty_branch [([], Dict [(''x'', Leaf (Num 1))])] \<and>
   collision_free [([], Dict [(''x'', Leaf (Num 1))])] \<and>
   map (\<lambda>(p, x). (dot_join p, x)) (leaf_paths [([], Dict [(''x'', Leaf (Num 1))])])
     = [(''.x'', Num 1)] \<and>
   flatten [([], Dict [(''x'', Leaf (Num 1))])] [] = [(''x'', Num 1)] \<and>
   renest (flatten [([], Dict [(''x'', Leaf (Num 1))])] []) = [(''x'', Leaf (Num 1))]"
  by (simp add: collision_free_def flatten_def dict_def new_key_def renest_def)

text \<open>
  C8, as amended. For every nested mapping in which no key contains a dot and the empty
  string, at the top level, is not the key of a mapping: flattening produces exactly
  one entry per leaf, in the order of the leaves, whose key is the dot-joined path of
  the leaf and whose value is the leaf; no two of these keys collide; and when the
  mapping has no empty-mapping branch, re-nesting the flattened mapping reproduces the
  original, entry order included.
\<close>

theorem flatten_roundtrip:
  assumes "wf_mapping d" and "dot_free_keys d" and "root_named d"
  shows "flatten d [] = map (\<lambda>(p, x). (dot_join p, x)) (leaf_paths d)
       \<and> collision_free d
       \<and> (no_empty_branch d \<longrightarrow> renest (flatten d []) = d)"
proof (intro conjI impI)
  show f: "flatten d [] = map (\<lambda>(p, x). (dot_join p, x)) (leaf_paths d)"
    using assms by (rule flatten_leaf_paths)
  show "collision_free d"
    using keys_distinct[OF assms(1,2), of "[]"] by (simp add: collision_free_def)
  assume "no_empty_branch d"
  then have "build (leaf_paths d) [] = d"
    using build_leaf_paths[OF assms(1), of "[]"] by simp
  then show "renest (flatten d []) = d"
    using renest_leaf_paths[OF assms(2)] f by simp
qed

text \<open>C8, witness: the sample document, flattened and rebuilt.\<close>

theorem flatten_roundtrip_witness:
  "wf_mapping sample_doc \<and> dot_free_keys sample_doc \<and> root_named sample_doc \<and>
   no_empty_branch sample_doc \<and>
   flatten sample_doc [] =
     [(''_id'', Str ''a''), (''headline.main'', Str ''t''), (''headline.kicker'', Str ''k''),
      ([], Num 0), (''byline.person.'', Num 1), (''byline.person.rank'', Num 2)] \<and>
   renest (flatten sample_doc []) = sample_doc"
proof -
  have h: "wf_mapping sample_doc" "dot_free_keys sample_doc" "root_named sample_doc"
    and n: "no_empty_branch sample_doc"
    by (simp_all add: sample_doc_def)
  note t = flatten_roundtrip[OF h]
  have "map (\<lambda>(p, x). (dot_join p, x)) (leaf_paths sample_doc) =
     [(''_id'', Str ''a''), (''headline.main'', Str ''t''), (''headline.kicker'', Str ''k''),
      ([], Num 0), (''byline.person.'', Num 1), (''byline.person.rank'', Num 2)]"
    by (simp add: sample_doc_def)
  then have c1: "flatten sample_doc [] =
     [(''_id'', Str ''a''), (''headline.main'', Str ''t''), (''headline.kicker'', Str ''k''),
      ([], Num 0), (''byline.person.'', Num 1), (''byline.person.rank'', Num 2)]"
    using t by simp
  have c2: "renest (flatten sample_doc []) = sample_doc"
    using t n by blast
  show ?thesis
    using h n c1 c2 by (intro conjI)
qed

subsection \<open>Documents that keep their id\<close>

text \<open>
  A document with no dot in its keys and no mapping under the empty key at the top level
  keeps its id when flattened: the hypothesis of the exactly-once property holds for it.
\<close>

lemma leaf_paths_top_leaf:
  "map_of d k = Some (Leaf i) \<Longrightarrow> wf_mapping d \<Longrightarrow> ([k], i) \<in> set (leaf_paths d)"
  by (induction d rule: leaf_paths.induct) (auto split: if_splits)

lemma keeps_id_plain:
  assumes "wf_mapping d" and "dot_free_keys d" and "root_named d"
  shows "keeps_id d"
proof (cases "map_of d ''_id''")
  case None
  then show ?thesis by (simp add: keeps_id_def)
next
  case (Some v)
  show ?thesis
  proof (cases v)
    case (Dict m)
    then show ?thesis using Some by (simp add: keeps_id_def)
  next
    case (Leaf i)
    have "([''_id''], i) \<in> set (leaf_paths d)"
      using Some Leaf assms(1) by (intro leaf_paths_top_leaf) simp
    then have "(''_id'', i) \<in> set (flatten d [])"
      unfolding flatten_leaf_paths[OF assms] by force
    moreover have "distinct (map fst (flatten d []))"
      unfolding flatten_leaf_paths[OF assms] using keys_distinct_fst[OF assms(1,2), of "[]"] by simp
    ultimately have "map_of (flatten d []) ''_id'' = Some i"
      by (rule map_of_is_SomeI[rotated])
    then show ?thesis using Some Leaf by (simp add: keeps_id_def row_id_def)
  qed
qed

end
